theory Spec2Isabelle
  imports Complex_Main "HOL-Library.Char_ord" "HOL-Library.List_Lexorder"
begin

section \<open>The notebook 02-submit: pairwise correlation and the slowadd exercises\<close>

text \<open>
  The notebook is a linear script. Its cells are embedded as functions over the values
  the cells bind (\<open>filenames\<close>, \<open>series\<close>, \<open>results\<close>). What the cells call in
  libraries is taken as a parameter: the directory listing \<open>glob\<close> returns, the reader
  \<open>pd.read_hdf\<close> and the correlation \<open>Series.corr\<close>. The time a call to \<open>sleep\<close>
  takes is not part of the model; only the values are.
\<close>

subsection \<open>Python values\<close>

text \<open>Exceptions the cells can meet, as values.\<close>

datatype pyerr = KeyError string | ValueError | ReadError string

text \<open>
  A Python float as far as comparison goes: not-a-number, the two infinities, or a
  finite number. \<open>Series.corr\<close> returns not-a-number when one of the series has no
  variance.
\<close>

datatype pyfloat = NaN | NInf | Fin real | PInf

text \<open>Python's \<open>x > y\<close> on floats: every comparison with not-a-number is false.\<close>

fun py_gt :: "pyfloat \<Rightarrow> pyfloat \<Rightarrow> bool" where
  "py_gt NaN y = False"
| "py_gt x NaN = False"
| "py_gt (Fin x) (Fin y) = (y < x)"
| "py_gt PInf PInf = False"
| "py_gt PInf y = True"
| "py_gt x PInf = False"
| "py_gt NInf y = False"
| "py_gt x NInf = True"

text \<open>Python's \<open>x == y\<close> and \<open>x >= y\<close> on floats.\<close>

definition py_eq :: "pyfloat \<Rightarrow> pyfloat \<Rightarrow> bool" where
  "py_eq x y = (x \<noteq> NaN \<and> x = y)"

definition py_ge :: "pyfloat \<Rightarrow> pyfloat \<Rightarrow> bool" where
  "py_ge x y = (py_gt x y \<or> py_eq x y)"

text \<open>\<open>range(n)\<close> as the list it iterates over.\<close>

definition py_range :: "nat \<Rightarrow> int list" where
  "py_range n = map int [0..<n]"

text \<open>
  A dict in insertion order, as a list of items with distinct keys. \<open>d[k] = v\<close> keeps
  the place of a key that is already there and appends a new one.
\<close>

type_synonym ('k, 'v) pydict = "('k \<times> 'v) list"

fun dict_set :: "('k, 'v) pydict \<Rightarrow> 'k \<Rightarrow> 'v \<Rightarrow> ('k, 'v) pydict" where
  "dict_set [] k v = [(k, v)]"
| "dict_set ((k', v') # d) k v =
     (if k' = k then (k, v) # d else (k', v') # dict_set d k v)"

text \<open>
  The builtin \<open>max(iterable, key=f)\<close>: the first item is the candidate, and a later item
  replaces the candidate only when its key is greater (\<open>>\<close>) than the candidate's. An
  empty iterable raises ValueError.
\<close>

fun max_scan :: "('a \<Rightarrow> pyfloat) \<Rightarrow> 'a \<Rightarrow> 'a list \<Rightarrow> 'a" where
  "max_scan key m [] = m"
| "max_scan key m (x # xs) =
     (if py_gt (key x) (key m) then max_scan key x xs else max_scan key m xs)"

definition py_max :: "('a \<Rightarrow> pyfloat) \<Rightarrow> 'a list \<Rightarrow> pyerr + 'a" where
  "py_max key items = (case items of [] \<Rightarrow> Inl ValueError | x # xs \<Rightarrow> Inr (max_scan key x xs))"

subsection \<open>Cells 2 to 4: the sequential pipeline\<close>

text \<open>
  The state of the notebook that the pipeline works on: the dict \<open>series\<close> and the dict
  \<open>results\<close>. A series is a value of the library (type \<open>'s\<close>).
\<close>

record 's notebook =
  series :: "string \<rightharpoonup> 's"
  results :: "(string \<times> string, pyfloat) pydict"

text \<open>
  Cell 2, \<open>filenames = sorted(glob(...))\<close>. The argument is the list \<open>glob\<close> returns, in
  whatever order the file system gives it.
\<close>

definition sorted_glob :: "string list \<Rightarrow> string list" where
  "sorted_glob listing = sort listing"

text \<open>
  Cell 3, the loading loop \<open>for fn in filenames: series[fn] = pd.read_hdf(fn)['close']\<close>.
  A data frame is a map from column names to series; a missing column raises KeyError,
  and the reader may raise.
\<close>

type_synonym 's dataframe = "string \<rightharpoonup> 's"

fun load_loop :: "(string \<Rightarrow> pyerr + 's dataframe) \<Rightarrow> string list \<Rightarrow> 's notebook
    \<Rightarrow> pyerr + 's notebook" where
  "load_loop read_hdf [] st = Inr st"
| "load_loop read_hdf (fn # fns) st =
     (case read_hdf fn of
        Inl e \<Rightarrow> Inl e
      | Inr df \<Rightarrow>
          (case df ''close'' of
             None \<Rightarrow> Inl (KeyError ''close'')
           | Some s \<Rightarrow> load_loop read_hdf fns (st\<lparr>series := (series st)(fn \<mapsto> s)\<rparr>)))"

definition load_series :: "(string \<Rightarrow> pyerr + 's dataframe) \<Rightarrow> string list \<Rightarrow> 's notebook
    \<Rightarrow> pyerr + 's notebook" where
  "load_series read_hdf filenames st = load_loop read_hdf filenames (st\<lparr>series := Map.empty\<rparr>)"

text \<open>
  Cell 4, the doubly nested loop. The body reads \<open>series[a]\<close> and \<open>series[b]\<close> (KeyError
  when absent), calls \<open>corr\<close> and stores under the key \<open>(a, b)\<close>.
\<close>

fun corr_inner :: "('s \<Rightarrow> 's \<Rightarrow> pyfloat) \<Rightarrow> string \<Rightarrow> string list \<Rightarrow> 's notebook
    \<Rightarrow> pyerr + 's notebook" where
  "corr_inner corr a [] st = Inr st"
| "corr_inner corr a (b # bs) st =
     (if a \<noteq> b then
        (case series st a of
           None \<Rightarrow> Inl (KeyError a)
         | Some sa \<Rightarrow>
             (case series st b of
                None \<Rightarrow> Inl (KeyError b)
              | Some sb \<Rightarrow>
                  corr_inner corr a bs
                    (st\<lparr>results := dict_set (results st) (a, b) (corr sa sb)\<rparr>)))
      else corr_inner corr a bs st)"

fun corr_outer :: "('s \<Rightarrow> 's \<Rightarrow> pyfloat) \<Rightarrow> string list \<Rightarrow> string list \<Rightarrow> 's notebook
    \<Rightarrow> pyerr + 's notebook" where
  "corr_outer corr [] filenames st = Inr st"
| "corr_outer corr (a # as) filenames st =
     (case corr_inner corr a filenames st of
        Inl e \<Rightarrow> Inl e
      | Inr st' \<Rightarrow> corr_outer corr as filenames st')"

definition pairwise_corr :: "('s \<Rightarrow> 's \<Rightarrow> pyfloat) \<Rightarrow> string list \<Rightarrow> 's notebook
    \<Rightarrow> pyerr + 's notebook" where
  "pairwise_corr corr filenames st = corr_outer corr filenames filenames (st\<lparr>results := []\<rparr>)"

text \<open>The reduction \<open>max(results.items(), key=lambda kv: kv[1])\<close>.\<close>

definition best_pair :: "(string \<times> string, pyfloat) pydict
    \<Rightarrow> pyerr + ((string \<times> string) \<times> pyfloat)" where
  "best_pair res = py_max (\<lambda>kv. snd kv) res"

text \<open>Cells 2 to 4 in a row: the final notebook state and the entry that is printed.\<close>

definition pipeline :: "string list \<Rightarrow> (string \<Rightarrow> pyerr + 's dataframe) \<Rightarrow> ('s \<Rightarrow> 's \<Rightarrow> pyfloat)
    \<Rightarrow> pyerr + ('s notebook \<times> ((string \<times> string) \<times> pyfloat))" where
  "pipeline listing read_hdf corr =
     (let filenames = sorted_glob listing in
      case load_series read_hdf filenames \<lparr>series = Map.empty, results = []\<rparr> of
        Inl e \<Rightarrow> Inl e
      | Inr st \<Rightarrow>
          (case pairwise_corr corr filenames st of
             Inl e \<Rightarrow> Inl e
           | Inr st' \<Rightarrow>
               (case best_pair (results st') of
                  Inl e \<Rightarrow> Inl e
                | Inr best \<Rightarrow> Inr (st', best))))"

subsection \<open>Cell 16: the sequential slowadd/slowsub exercise\<close>

text \<open>
  \<open>slowadd\<close> and \<open>slowsub\<close> sleep and then return the sum or the difference;
  \<open>sleep\<close> raises ValueError on a negative delay.
\<close>

definition slowadd :: "int \<Rightarrow> int \<Rightarrow> int \<Rightarrow> pyerr + int" where
  "slowadd a b delay = (if delay < 0 then Inl ValueError else Inr (a + b))"

definition slowsub :: "int \<Rightarrow> int \<Rightarrow> int \<Rightarrow> pyerr + int" where
  "slowsub a b delay = (if delay < 0 then Inl ValueError else Inr (a - b))"

fun exercise_inner :: "int \<Rightarrow> int list \<Rightarrow> int list \<Rightarrow> pyerr + int list" where
  "exercise_inner i [] res = Inr res"
| "exercise_inner i (j # js) res =
     (if i < j then
        (case slowadd i j 1 of
           Inl e \<Rightarrow> Inl e
         | Inr v \<Rightarrow> exercise_inner i js (res @ [v]))
      else if i > j then
        (case slowsub i j 1 of
           Inl e \<Rightarrow> Inl e
         | Inr v \<Rightarrow> exercise_inner i js (res @ [v]))
      else exercise_inner i js res)"

fun exercise_outer :: "int list \<Rightarrow> int list \<Rightarrow> int list \<Rightarrow> pyerr + int list" where
  "exercise_outer [] js res = Inr res"
| "exercise_outer (i # is) js res =
     (case exercise_inner i js res of
        Inl e \<Rightarrow> Inl e
      | Inr res' \<Rightarrow> exercise_outer is js res')"

definition sequential_exercise :: "pyerr + int list" where
  "sequential_exercise = exercise_outer (py_range 5) (py_range 5) []"

text \<open>
  The list as the exercise is described: the pairs \<open>(i, j)\<close> of \<open>range(5) x range(5)\<close>
  row by row, the diagonal left out, \<open>i + j\<close> above it and \<open>i - j\<close> below.
\<close>

definition exercise_described :: "int list" where
  "exercise_described =
     concat (map (\<lambda>i. concat (map (\<lambda>j. if i = j then [] else [if i < j then i + j else i - j])
       (py_range 5))) (py_range 5))"

subsection \<open>Cells 9 to 13: submit and the futures\<close>

text \<open>
  Modelled from the spec: the executor and its futures (\<open>ThreadPoolExecutor\<close>,
  \<open>submit\<close>, \<open>Future.result\<close>) belong to the library \<open>concurrent.futures\<close>, which is
  not among the sources. The spec's words: a Future is a handle to a pending or completed
  computation that goes from pending to fulfilled or failed, with exactly one producer.
  A pending future holds the call it stands for (the function with its arguments).
\<close>

datatype 'a future_state = Pending "unit \<Rightarrow> pyerr + 'a" | Fulfilled 'a | Failed pyerr

text \<open>
  Modelled from the spec: the executor, a pool of fixed size with the futures it has
  handed out. A future is named by its place in the list. The size of the pool bounds
  how many calls run at a time and has no part in the values.
\<close>

record 'a executor =
  max_workers :: nat
  future_states :: "'a future_state list"

text \<open>Modelled from the spec: a new executor with \<open>n\<close> workers has no futures.\<close>

definition ThreadPoolExecutor :: "nat \<Rightarrow> 'a executor" where
  "ThreadPoolExecutor n = \<lparr>max_workers = n, future_states = []\<rparr>"

text \<open>
  Modelled from the spec: task submission takes the call and returns a new future,
  pending, at once.
\<close>

definition submit :: "'a executor \<Rightarrow> (unit \<Rightarrow> pyerr + 'a) \<Rightarrow> nat \<times> 'a executor" where
  "submit ex call = (length (future_states ex), ex\<lparr>future_states := future_states ex @ [Pending call]\<rparr>)"

text \<open>
  Modelled from the spec: the one producer of a future is the worker that runs its call;
  the future becomes fulfilled with the value, or failed with the exception.
\<close>

fun is_pending :: "'a future_state \<Rightarrow> bool" where
  "is_pending (Pending call) = True"
| "is_pending (Fulfilled v) = False"
| "is_pending (Failed e) = False"

fun settled :: "pyerr + 'a \<Rightarrow> 'a future_state" where
  "settled (Inl e) = Failed e"
| "settled (Inr v) = Fulfilled v"

fun finish :: "'a future_state \<Rightarrow> 'a future_state" where
  "finish (Pending call) = settled (call ())"
| "finish (Fulfilled v) = Fulfilled v"
| "finish (Failed e) = Failed e"

text \<open>
  Modelled from the spec: a worker finishes the call of future \<open>i\<close>. Up to
  \<open>max_workers\<close> calls run at a time, so calls can finish in any order.
\<close>

definition worker_completes :: "nat \<Rightarrow> 'a executor \<Rightarrow> 'a executor" where
  "worker_completes i ex =
     (if i < length (future_states ex)
      then ex\<lparr>future_states := (future_states ex)[i := finish (future_states ex ! i)]\<rparr> else ex)"

text \<open>
  Modelled from the spec: left to themselves the workers take the pending calls in the
  order of submission.
\<close>

fun first_pending :: "'a future_state list \<Rightarrow> nat option" where
  "first_pending [] = None"
| "first_pending (s # ss) = (if is_pending s then Some 0 else map_option Suc (first_pending ss))"

definition worker_step :: "'a executor \<Rightarrow> 'a executor" where
  "worker_step ex =
     (case first_pending (future_states ex) of None \<Rightarrow> ex | Some i \<Rightarrow> worker_completes i ex)"

text \<open>
  Each step of the workers leaves fewer pending futures, so waiting for a future ends.
\<close>

definition n_pending :: "'a executor \<Rightarrow> nat" where
  "n_pending ex = length (filter is_pending (future_states ex))"

lemma settled_not_pending: "\<not> is_pending (settled r)"
  by (cases r) simp_all

lemma finish_not_pending: "\<not> is_pending (finish s)"
  by (cases s) (simp_all add: settled_not_pending)

lemma first_pending_Some:
  "first_pending fs = Some i \<Longrightarrow> i < length fs \<and> is_pending (fs ! i)"
  by (induction fs arbitrary: i) (auto split: if_splits)

lemma first_pending_None: "first_pending fs = None \<Longrightarrow> \<forall>s\<in>set fs. \<not> is_pending s"
  by (induction fs) (auto split: if_splits)

lemma filter_pending_update:
  "i < length fs \<Longrightarrow> is_pending (fs ! i) \<Longrightarrow>
     length (filter is_pending (fs[i := finish (fs ! i)])) < length (filter is_pending fs)"
proof (induction fs arbitrary: i)
  case Nil
  then show ?case by simp
next
  case (Cons s fs)
  show ?case
  proof (cases i)
    case 0
    with Cons.prems show ?thesis by (simp add: finish_not_pending less_Suc_eq_le)
  next
    case (Suc j)
    with Cons.prems Cons.IH [of j] show ?thesis by simp
  qed
qed

lemma worker_step_progress:
  assumes "f < length (future_states ex)" and "is_pending (future_states ex ! f)"
  shows "n_pending (worker_step ex) < n_pending ex"
proof -
  from assms have "\<exists>s\<in>set (future_states ex). is_pending s" using nth_mem by blast
  then obtain i where i: "first_pending (future_states ex) = Some i"
    using first_pending_None by (cases "first_pending (future_states ex)") blast+
  then have "i < length (future_states ex)" "is_pending (future_states ex ! i)"
    using first_pending_Some by blast+
  then show ?thesis
    by (simp add: worker_step_def i worker_completes_def n_pending_def filter_pending_update)
qed

text \<open>
  Modelled from the spec: result retrieval blocks until the future's computation
  completes: the workers go on until the future is no longer pending.
\<close>

function await :: "'a executor \<Rightarrow> nat \<Rightarrow> 'a executor" where
  "await ex f =
     (if f < length (future_states ex) \<and> is_pending (future_states ex ! f)
      then await (worker_step ex) f else ex)"
  by pat_completeness auto
termination
proof (relation "measure (\<lambda>(ex, f). n_pending ex)")
  show "wf (measure (\<lambda>(ex :: 'a executor, f :: nat). n_pending ex))"
    by simp
next
  fix ex :: "'a executor" and f :: nat
  assume "f < length (future_states ex) \<and> is_pending (future_states ex ! f)"
  then have "n_pending (worker_step ex) < n_pending ex"
    using worker_step_progress by blast
  then show "((worker_step ex, f), (ex, f)) \<in> measure (\<lambda>(ex, f). n_pending ex)"
    by simp
qed

declare await.simps [simp del]

lemma await_pending:
  "f < length (future_states ex) \<Longrightarrow> is_pending (future_states ex ! f) \<Longrightarrow>
     await ex f = await (worker_step ex) f"
  by (subst await.simps) simp

lemma await_settled:
  "\<not> (f < length (future_states ex) \<and> is_pending (future_states ex ! f)) \<Longrightarrow> await ex f = ex"
  by (subst await.simps) auto

text \<open>
  Modelled from the spec: result retrieval then yields the value or propagates the
  failure. \<open>None\<close> stands for a call that never returns.
\<close>

definition result :: "'a executor \<Rightarrow> nat \<Rightarrow> ('a executor \<times> (pyerr + 'a)) option" where
  "result ex f =
     (let ex' = await ex f in
      if f < length (future_states ex') then
        (case future_states ex' ! f of
           Pending call \<Rightarrow> None
         | Fulfilled v \<Rightarrow> Some (ex', Inr v)
         | Failed e \<Rightarrow> Some (ex', Inl e))
      else None)"

text \<open>
  Modelled from the spec: what may happen to an executor while a future is out: a
  further submission, a worker finishing some call, somebody waiting for a future.
\<close>

datatype 'a activity = Submits "unit \<Rightarrow> pyerr + 'a" | Completes nat | Waits nat

fun act :: "'a activity \<Rightarrow> 'a executor \<Rightarrow> 'a executor" where
  "act (Submits call) ex = snd (submit ex call)"
| "act (Completes i) ex = worker_completes i ex"
| "act (Waits f) ex = await ex f"


text \<open>
  A list comprehension \<open>[g(x) for x in xs]\<close>: the first exception ends it.
\<close>

fun comprehension :: "('a \<Rightarrow> pyerr + 'b) \<Rightarrow> 'a list \<Rightarrow> pyerr + 'b list" where
  "comprehension g [] = Inr []"
| "comprehension g (x # xs) =
     (case g x of
        Inl e \<Rightarrow> Inl e
      | Inr y \<Rightarrow> (case comprehension g xs of Inl e \<Rightarrow> Inl e | Inr ys \<Rightarrow> Inr (y # ys)))"

text \<open>
  \<open>[e.submit(...) for i in ...]\<close>, the comprehension of cell 13 that submits one call
  for each \<open>i\<close> and returns the futures, and \<open>[f.result() for f in futures]\<close>, the
  one that reads them.
\<close>

fun submit_each :: "('b \<Rightarrow> unit \<Rightarrow> pyerr + 'a) \<Rightarrow> 'b list \<Rightarrow> 'a executor
    \<Rightarrow> nat list \<times> 'a executor" where
  "submit_each task [] ex = ([], ex)"
| "submit_each task (x # xs) ex =
     (case submit ex (task x) of
        (f, ex1) \<Rightarrow> (case submit_each task xs ex1 of (fs, ex2) \<Rightarrow> (f # fs, ex2)))"

fun result_each :: "nat list \<Rightarrow> 'a executor \<Rightarrow> ('a executor \<times> (pyerr + 'a list)) option" where
  "result_each [] ex = Some (ex, Inr [])"
| "result_each (f # fs) ex =
     (case result ex f of
        None \<Rightarrow> None
      | Some (ex1, Inl e) \<Rightarrow> Some (ex1, Inl e)
      | Some (ex1, Inr v) \<Rightarrow>
          (case result_each fs ex1 of
             None \<Rightarrow> None
           | Some (ex2, Inl e) \<Rightarrow> Some (ex2, Inl e)
           | Some (ex2, Inr vs) \<Rightarrow> Some (ex2, Inr (v # vs))))"

text \<open>
  Cell 9, \<open>e = ThreadPoolExecutor(4); future = e.submit(slowadd, 1, 2)\<close> (the delay is
  the default, 1), and cell 10, \<open>future.result()\<close>.
\<close>

definition cell9 :: "nat \<times> int executor" where
  "cell9 = submit (ThreadPoolExecutor 4) (\<lambda>_. slowadd 1 2 1)"

definition cell10 :: "(int executor \<times> (pyerr + int)) option" where
  "cell10 = (case cell9 of (future, e) \<Rightarrow> result e future)"

text \<open>
  Cell 12, \<open>results = [slowadd(i, i, delay=1) for i in range(10)]\<close>, and cell 13,
  \<open>futures = [e.submit(slowadd, 1, 1, delay=1) for i in range(10)]\<close> followed by
  \<open>results = [f.result() for f in futures]\<close>, on the executor \<open>e\<close> as the cells
  before left it.
\<close>

definition cell12 :: "pyerr + int list" where
  "cell12 = comprehension (\<lambda>i. slowadd i i 1) (py_range 10)"

definition cell13 :: "int executor \<Rightarrow> (int executor \<times> (pyerr + int list)) option" where
  "cell13 e =
     (case submit_each (\<lambda>i _. slowadd 1 1 1) (py_range 10) e of
        (futs, e1) \<Rightarrow> result_each futs e1)"

text \<open>
  Future \<open>f\<close> carries the call \<open>call\<close>: it is pending with that call, or settled
  with what the call returns.
\<close>

definition carries :: "nat \<Rightarrow> (unit \<Rightarrow> pyerr + 'a) \<Rightarrow> 'a executor \<Rightarrow> bool" where
  "carries f call ex \<longleftrightarrow>
     f < length (future_states ex)
     \<and> (future_states ex ! f = Pending call \<or> future_states ex ! f = settled (call ()))"

section \<open>Properties\<close>

subsection \<open>The comparison of floats\<close>

lemma py_gt_nan_right [simp]: "py_gt x NaN = False"
  by (cases x) simp_all

lemma py_gt_trans: "py_gt x y \<Longrightarrow> py_gt y z \<Longrightarrow> py_gt x z"
  by (cases x; cases y; cases z) simp_all

lemma py_gt_irrefl: "\<not> py_gt x x"
  by (cases x) simp_all

lemma py_gt_not_nan: "py_gt x y \<Longrightarrow> x \<noteq> NaN \<and> y \<noteq> NaN"
  by (cases x; cases y) simp_all

lemma py_ge_iff: "py_ge x y \<longleftrightarrow> x \<noteq> NaN \<and> y \<noteq> NaN \<and> \<not> py_gt y x"
  by (cases x; cases y) (auto simp: py_ge_def py_eq_def)

lemma py_gt_ge_trans: "py_gt x y \<Longrightarrow> \<not> py_gt z y \<Longrightarrow> z \<noteq> NaN \<Longrightarrow> py_gt x z"
  by (cases x; cases y; cases z) simp_all

lemma max_scan_mem: "max_scan key m xs \<in> set (m # xs)"
  by (induction xs arbitrary: m) auto

lemma max_scan_nan: "key m = NaN \<Longrightarrow> max_scan key m xs = m"
  by (induction xs) simp_all

lemma max_scan_ge: "key m \<noteq> NaN \<Longrightarrow> py_ge (key (max_scan key m xs)) (key m)"
proof (induction xs arbitrary: m)
  case Nil
  then show ?case by (simp add: py_ge_def py_eq_def)
next
  case (Cons x xs)
  show ?case
  proof (cases "py_gt (key x) (key m)")
    case True
    then have "key x \<noteq> NaN" using py_gt_not_nan by blast
    then have "py_ge (key (max_scan key x xs)) (key x)" by (rule Cons.IH)
    with True have "py_ge (key (max_scan key x xs)) (key m)"
      unfolding py_ge_iff using py_gt_trans py_gt_not_nan by blast
    with True show ?thesis by simp
  next
    case False
    with Cons show ?thesis by simp
  qed
qed

lemma max_scan_none_greater:
  "e \<in> set (m # xs) \<Longrightarrow> \<not> py_gt (key e) (key (max_scan key m xs))"
proof (induction xs arbitrary: m)
  case Nil
  then show ?case by (simp add: py_gt_irrefl)
next
  case (Cons x xs)
  show ?case
  proof (cases "py_gt (key x) (key m)")
    case True
    then have r: "max_scan key m (x # xs) = max_scan key x xs" by simp
    have xn: "key x \<noteq> NaN" using True py_gt_not_nan by blast
    show ?thesis
    proof (cases "e = m")
      case em: True
      have "py_ge (key (max_scan key x xs)) (key x)" using xn by (rule max_scan_ge)
      then have "\<not> py_gt (key m) (key (max_scan key x xs))"
        unfolding py_ge_iff using True py_gt_trans by blast
      with r em show ?thesis by simp
    next
      case False
      with Cons.prems have "e \<in> set (x # xs)" by simp
      then show ?thesis unfolding r by (rule Cons.IH)
    qed
  next
    case False
    then have r: "max_scan key m (x # xs) = max_scan key m xs" by simp
    show ?thesis
    proof (cases "e = x")
      case ex: True
      show ?thesis
      proof (cases "key m = NaN")
        case True
        then show ?thesis unfolding r by (simp add: max_scan_nan py_gt_not_nan)
      next
        case mn: False
        then have "py_ge (key (max_scan key m xs)) (key m)" by (rule max_scan_ge)
        with False ex show ?thesis
          unfolding r py_ge_iff
          by (metis py_gt_ge_trans py_gt_not_nan py_gt_trans)
      qed
    next
      case False
      with Cons.prems have "e \<in> set (m # xs)" by auto
      then show ?thesis unfolding r by (rule Cons.IH)
    qed
  qed
qed

subsection \<open>The reduction\<close>

lemma max_scan_pass:
  "key m \<noteq> NaN \<Longrightarrow> py_gt (key x) (key m) \<Longrightarrow>
   \<forall>e\<in>set pre. key e = NaN \<or> py_gt (key x) (key e) \<Longrightarrow>
     max_scan key m (pre @ x # post) = max_scan key x post"
proof (induction pre arbitrary: m)
  case Nil
  then show ?case by simp
next
  case (Cons p pre)
  show ?case
  proof (cases "py_gt (key p) (key m)")
    case True
    then have pn: "key p \<noteq> NaN" using py_gt_not_nan by blast
    with Cons.prems have "py_gt (key x) (key p)" by simp
    with pn Cons.prems have "max_scan key p (pre @ x # post) = max_scan key x post"
      by (intro Cons.IH) simp_all
    with True show ?thesis by simp
  next
    case False
    from Cons.prems have "max_scan key m (pre @ x # post) = max_scan key x post"
      by (intro Cons.IH) simp_all
    with False show ?thesis by simp
  qed
qed

lemma max_scan_keep:
  "\<forall>e\<in>set post. \<not> py_gt (key e) (key x) \<Longrightarrow> max_scan key x post = x"
  by (induction post) simp_all

text \<open>
  C2, as amended. On a non-empty result mapping the reduction returns an entry of the
  mapping, and no entry's value is greater (\<open>>\<close>) than the returned value. When no
  value of the mapping is not-a-number, the returned value is greater than or equal to
  (\<open>>=\<close>) the value of every entry.
\<close>

theorem best_pair_maximum:
  assumes "res \<noteq> []"
  shows "\<exists>r. best_pair res = Inr r \<and> r \<in> set res
           \<and> (\<forall>e\<in>set res. \<not> py_gt (snd e) (snd r))
           \<and> ((\<forall>e\<in>set res. snd e \<noteq> NaN) \<longrightarrow> (\<forall>e\<in>set res. py_ge (snd r) (snd e)))"
proof -
  from assms obtain x xs where res: "res = x # xs" by (cases res) auto
  define r where "r = max_scan (\<lambda>kv. snd kv) x xs"
  have run: "best_pair res = Inr r"
    by (simp add: best_pair_def py_max_def res r_def)
  have mem: "r \<in> set res"
    unfolding r_def res by (rule max_scan_mem)
  have none: "\<not> py_gt (snd e) (snd r)" if "e \<in> set res" for e
    using that max_scan_none_greater [of e x xs "\<lambda>kv. snd kv"] by (simp add: r_def res)
  have ge: "py_ge (snd r) (snd e)" if "\<forall>e\<in>set res. snd e \<noteq> NaN" and "e \<in> set res" for e
    using that none [of e] mem by (simp add: py_ge_iff)
  from run mem none ge show ?thesis by blast
qed

theorem best_pair_maximum_witness:
  "[((''a'', ''b''), Fin (1 / 4)), ((''b'', ''a''), Fin (1 / 2))] \<noteq> []
   \<and> (\<exists>r. best_pair [((''a'', ''b''), Fin (1 / 4)), ((''b'', ''a''), Fin (1 / 2))] = Inr r
        \<and> r = ((''b'', ''a''), Fin (1 / 2))
        \<and> py_ge (snd r) (Fin (1 / 4)) \<and> py_ge (snd r) (Fin (1 / 2)))"
  using best_pair_maximum [of "[((''a'', ''b''), Fin (1 / 4)), ((''b'', ''a''), Fin (1 / 2))]"]
  by (simp add: best_pair_def py_max_def py_ge_def py_eq_def)

text \<open>
  C2 as stated fails when a value is not-a-number. With three files of which \<open>a\<close>
  has no variance, the first entry \<open>(a, b)\<close> holds not-a-number; no later value is
  greater than it, so the scan returns it, and it is not \<open>>=\<close> the value 0.9 of
  \<open>(b, c)\<close>.
\<close>

theorem best_pair_nan_counterexample:
  "best_pair [((''a'', ''b''), NaN), ((''a'', ''c''), NaN), ((''b'', ''a''), NaN),
              ((''b'', ''c''), Fin (9 / 10)), ((''c'', ''a''), NaN), ((''c'', ''b''), Fin (9 / 10))]
     = Inr ((''a'', ''b''), NaN)
   \<and> ((''b'', ''c''), Fin (9 / 10)) \<in> set [((''a'', ''b''), NaN), ((''a'', ''c''), NaN),
        ((''b'', ''a''), NaN), ((''b'', ''c''), Fin (9 / 10)), ((''c'', ''a''), NaN),
        ((''c'', ''b''), Fin (9 / 10))]
   \<and> \<not> py_ge NaN (Fin (9 / 10))"
  by (simp add: best_pair_def py_max_def py_ge_def py_eq_def)

text \<open>
  C3, as amended. When the first entry's value is not-a-number the reduction returns
  the first entry. Otherwise, when an entry's value is \<open>>=\<close> every value of the
  mapping that is a number and no entry before it in iteration order has an equal
  value, the reduction returns that entry: among the entries that share the greatest
  value, the first one. Values that are not-a-number after the first place are passed
  over.
\<close>

theorem best_pair_first_maximal:
  "(\<forall>x xs. res = x # xs \<and> snd x = NaN \<longrightarrow> best_pair res = Inr x)
   \<and> (res = pre @ (k, v) # post \<and> snd (hd res) \<noteq> NaN
        \<and> (\<forall>e\<in>set res. snd e = NaN \<or> py_ge v (snd e))
        \<and> (\<forall>e\<in>set pre. \<not> py_eq (snd e) v)
       \<longrightarrow> best_pair res = Inr (k, v))"
proof -
  have nan_first: "best_pair res = Inr x" if "res = x # xs" and "snd x = NaN" for x xs
    using that by (simp add: best_pair_def py_max_def max_scan_nan)
  have tie: "best_pair res = Inr (k, v)"
    if split: "res = pre @ (k, v) # post"
      and hd_ok: "snd (hd res) \<noteq> NaN"
      and maxi: "\<forall>e\<in>set res. snd e = NaN \<or> py_ge v (snd e)"
      and first: "\<forall>e\<in>set pre. \<not> py_eq (snd e) v"
  proof -
    have below: "snd e = NaN \<or> py_gt v (snd e)" if "e \<in> set pre" for e
    proof -
      from that split maxi have "snd e = NaN \<or> py_ge v (snd e)" by simp
      moreover from that first have "\<not> py_eq (snd e) v" by simp
      ultimately show ?thesis by (auto simp: py_ge_def py_eq_def)
    qed
    have "\<not> py_gt (snd e) v" if "e \<in> set post" for e
    proof -
      from that split maxi have "snd e = NaN \<or> py_ge v (snd e)" by simp
      then show ?thesis by (auto simp: py_ge_iff)
    qed
    then have keep: "max_scan (\<lambda>kv. snd kv) (k, v) post = (k, v)"
      by (intro max_scan_keep) simp
    show ?thesis
    proof (cases pre)
      case Nil
      with split keep show ?thesis by (simp add: best_pair_def py_max_def)
    next
      case (Cons p ps)
      with split hd_ok have pn: "snd p \<noteq> NaN" by simp
      with below [of p] Cons have gt: "py_gt v (snd p)" by simp
      have "max_scan (\<lambda>kv. snd kv) p (ps @ (k, v) # post) = max_scan (\<lambda>kv. snd kv) (k, v) post"
        using pn gt below Cons by (intro max_scan_pass) simp_all
      with split keep Cons show ?thesis by (simp add: best_pair_def py_max_def)
    qed
  qed
  from nan_first tie show ?thesis by blast
qed

theorem best_pair_first_maximal_witness:
  "best_pair ([((''a'', ''b''), Fin (1 / 4)), ((''a'', ''c''), NaN)] @ ((''b'', ''a''), Fin (1 / 2)) #
        [((''b'', ''c''), NaN), ((''c'', ''b''), Fin (1 / 2))])
       = Inr ((''b'', ''a''), Fin (1 / 2))
   \<and> best_pair [((''a'', ''b''), NaN), ((''b'', ''c''), Fin (1 / 2)), ((''c'', ''b''), Fin (1 / 2))]
       = Inr ((''a'', ''b''), NaN)
   \<and> py_ge (Fin (1 / 2)) (Fin (1 / 4)) \<and> py_ge (Fin (1 / 2)) (Fin (1 / 2))
   \<and> \<not> py_eq (Fin (1 / 4)) (Fin (1 / 2)) \<and> \<not> py_eq NaN (Fin (1 / 2))"
proof -
  let ?pre = "[((''a'', ''b''), Fin (1 / 4)), ((''a'', ''c''), NaN)]"
  let ?post = "[((''b'', ''c''), NaN), ((''c'', ''b''), Fin (1 / 2))]"
  have cmp: "py_ge (Fin (1 / 2)) (Fin (1 / 4)) \<and> py_ge (Fin (1 / 2)) (Fin (1 / 2))
      \<and> \<not> py_eq (Fin (1 / 4)) (Fin (1 / 2)) \<and> \<not> py_eq NaN (Fin (1 / 2))"
    by (simp add: py_ge_def py_eq_def)
  from best_pair_first_maximal [of "?pre @ ((''b'', ''a''), Fin (1 / 2)) # ?post" ?pre
      "(''b'', ''a'')" "Fin (1 / 2)" ?post] cmp
  have tie: "best_pair (?pre @ ((''b'', ''a''), Fin (1 / 2)) # ?post)
       = Inr ((''b'', ''a''), Fin (1 / 2))"
    by simp
  from best_pair_first_maximal [of "[((''a'', ''b''), NaN), ((''b'', ''c''), Fin (1 / 2)),
      ((''c'', ''b''), Fin (1 / 2))]"]
  have nan: "best_pair [((''a'', ''b''), NaN), ((''b'', ''c''), Fin (1 / 2)),
      ((''c'', ''b''), Fin (1 / 2))] = Inr ((''a'', ''b''), NaN)"
    by simp
  from tie nan cmp show ?thesis by blast
qed

text \<open>
  C3 as stated fails when the first entry's value is not-a-number. With three files of
  which \<open>a\<close> has no variance, \<open>(b, c)\<close> and \<open>(c, b)\<close> share the greatest value 0.9
  (no value is greater), and the reduction returns \<open>(a, b)\<close>, which is neither.
\<close>

theorem best_pair_first_maximal_counterexample:
  "best_pair [((''a'', ''b''), NaN), ((''a'', ''c''), NaN), ((''b'', ''a''), NaN),
              ((''b'', ''c''), Fin (9 / 10)), ((''c'', ''a''), NaN), ((''c'', ''b''), Fin (9 / 10))]
     = Inr ((''a'', ''b''), NaN)
   \<and> ((''a'', ''b''), NaN) \<noteq> ((''b'', ''c''), Fin (9 / 10))
   \<and> \<not> py_gt NaN (Fin (9 / 10)) \<and> \<not> py_gt (Fin (9 / 10)) (Fin (9 / 10))
   \<and> py_eq (Fin (9 / 10)) (Fin (9 / 10)) \<and> \<not> py_eq NaN (Fin (9 / 10))"
  by (simp add: best_pair_def py_max_def py_eq_def)

subsection \<open>The dict\<close>

lemma dict_set_map_of: "map_of (dict_set d k v) = (map_of d)(k \<mapsto> v)"
  by (induction d) (auto simp: fun_eq_iff)

lemma dict_keys_dom: "fst ` set d = dom (map_of d)"
  by (simp add: dom_map_of_conv_image_fst)

lemma dict_set_keys: "fst ` set (dict_set d k v) = insert k (fst ` set d)"
  by (simp add: dict_keys_dom dict_set_map_of)

lemma dict_set_distinct: "distinct (map fst d) \<Longrightarrow> distinct (map fst (dict_set d k v))"
proof (induction d)
  case Nil
  then show ?case by simp
next
  case (Cons x d)
  obtain k' v' where x: "x = (k', v')" by (cases x)
  show ?case
  proof (cases "k' = k")
    case True
    with Cons.prems x show ?thesis by simp
  next
    case False
    with Cons x show ?thesis by (simp add: dict_set_keys)
  qed
qed

subsection \<open>Loading and pairwise correlation\<close>

lemma corr_inner_series:
  "corr_inner corr a bs st = Inr st' \<Longrightarrow> series st' = series st"
  by (induction bs arbitrary: st) (auto split: if_splits option.splits)

lemma corr_outer_series:
  "corr_outer corr as fns st = Inr st' \<Longrightarrow> series st' = series st"
proof (induction as arbitrary: st)
  case Nil
  then show ?case by simp
next
  case (Cons a as)
  from Cons.prems obtain st1 where
    inner: "corr_inner corr a fns st = Inr st1" and outer: "corr_outer corr as fns st1 = Inr st'"
    by (auto split: sum.splits)
  from outer have "series st' = series st1" by (rule Cons.IH)
  with inner show ?case by (simp add: corr_inner_series)
qed

lemma corr_inner_run:
  assumes "series st a = Some sa" and "set bs \<subseteq> dom (series st)"
  shows "\<exists>st'. corr_inner corr a bs st = Inr st'
     \<and> map_of (results st') =
         (\<lambda>k. if fst k = a \<and> snd k \<in> set bs \<and> snd k \<noteq> a
              then Some (corr sa (the (series st (snd k)))) else map_of (results st) k)
     \<and> (distinct (map fst (results st)) \<longrightarrow> distinct (map fst (results st')))"
  using assms
proof (induction bs arbitrary: st)
  case Nil
  then show ?case by simp
next
  case (Cons b bs)
  show ?case
  proof (cases "a = b")
    case True
    with Cons.IH [of st] Cons.prems show ?thesis by (auto simp: fun_eq_iff)
  next
    case False
    from Cons.prems obtain sb where sb: "series st b = Some sb" by auto
    let ?st1 = "st\<lparr>results := dict_set (results st) (a, b) (corr sa sb)\<rparr>"
    have "series ?st1 a = Some sa" and "set bs \<subseteq> dom (series ?st1)"
      using Cons.prems by simp_all
    from Cons.IH [OF this] obtain st' where
      run: "corr_inner corr a bs ?st1 = Inr st'"
      and m: "map_of (results st') =
         (\<lambda>k. if fst k = a \<and> snd k \<in> set bs \<and> snd k \<noteq> a
              then Some (corr sa (the (series ?st1 (snd k)))) else map_of (results ?st1) k)"
      and d: "distinct (map fst (results ?st1)) \<longrightarrow> distinct (map fst (results st'))"
      by blast
    have "corr_inner corr a (b # bs) st = Inr st'"
      using False sb Cons.prems(1) run by simp
    moreover have "map_of (results st') =
         (\<lambda>k. if fst k = a \<and> snd k \<in> set (b # bs) \<and> snd k \<noteq> a
              then Some (corr sa (the (series st (snd k)))) else map_of (results st) k)"
      unfolding m using False sb by (auto simp: fun_eq_iff dict_set_map_of)
    moreover have "distinct (map fst (results st)) \<longrightarrow> distinct (map fst (results st'))"
      using d by (simp add: dict_set_distinct)
    ultimately show ?thesis by blast
  qed
qed

lemma corr_outer_run:
  assumes "set as \<subseteq> dom (series st)" and "set fns \<subseteq> dom (series st)"
  shows "\<exists>st'. corr_outer corr as fns st = Inr st'
     \<and> map_of (results st') =
         (\<lambda>k. if fst k \<in> set as \<and> snd k \<in> set fns \<and> snd k \<noteq> fst k
              then Some (corr (the (series st (fst k))) (the (series st (snd k))))
              else map_of (results st) k)
     \<and> (distinct (map fst (results st)) \<longrightarrow> distinct (map fst (results st')))"
  using assms
proof (induction as arbitrary: st)
  case Nil
  then show ?case by simp
next
  case (Cons a as)
  from Cons.prems obtain sa where sa: "series st a = Some sa" by auto
  from corr_inner_run [OF sa Cons.prems(2), of corr] obtain st1 where
    run1: "corr_inner corr a fns st = Inr st1"
    and m1: "map_of (results st1) =
         (\<lambda>k. if fst k = a \<and> snd k \<in> set fns \<and> snd k \<noteq> a
              then Some (corr sa (the (series st (snd k)))) else map_of (results st) k)"
    and d1: "distinct (map fst (results st)) \<longrightarrow> distinct (map fst (results st1))"
    by blast
  have ser: "series st1 = series st" using run1 by (rule corr_inner_series)
  have "set as \<subseteq> dom (series st1)" and "set fns \<subseteq> dom (series st1)"
    using Cons.prems by (simp_all add: ser)
  from Cons.IH [OF this] obtain st' where
    run: "corr_outer corr as fns st1 = Inr st'"
    and m: "map_of (results st') =
         (\<lambda>k. if fst k \<in> set as \<and> snd k \<in> set fns \<and> snd k \<noteq> fst k
              then Some (corr (the (series st1 (fst k))) (the (series st1 (snd k))))
              else map_of (results st1) k)"
    and d: "distinct (map fst (results st1)) \<longrightarrow> distinct (map fst (results st'))"
    by blast
  have "corr_outer corr (a # as) fns st = Inr st'"
    using run1 run by simp
  moreover have "map_of (results st') =
         (\<lambda>k. if fst k \<in> set (a # as) \<and> snd k \<in> set fns \<and> snd k \<noteq> fst k
              then Some (corr (the (series st (fst k))) (the (series st (snd k))))
              else map_of (results st) k)"
    unfolding m m1 ser using sa by (auto simp: fun_eq_iff)
  moreover have "distinct (map fst (results st)) \<longrightarrow> distinct (map fst (results st'))"
    using d d1 by simp
  ultimately show ?case by blast
qed

lemma card_distinct_pairs:
  assumes "finite A"
  shows "card {(a, b). a \<in> A \<and> b \<in> A \<and> a \<noteq> b} = card A * (card A - 1)"
proof -
  have split: "A \<times> A = {(a, b). a \<in> A \<and> b \<in> A \<and> a \<noteq> b} \<union> (\<lambda>a. (a, a)) ` A"
    by auto
  have disj: "{(a, b). a \<in> A \<and> b \<in> A \<and> a \<noteq> b} \<inter> (\<lambda>a. (a, a)) ` A = {}"
    by auto
  have fin: "finite {(a, b). a \<in> A \<and> b \<in> A \<and> a \<noteq> b}"
    by (rule finite_subset [of _ "A \<times> A"]) (use assms in auto)
  have diag: "card ((\<lambda>a. (a, a)) ` A) = card A"
    by (rule card_image) (simp add: inj_on_def)
  have "card (A \<times> A) = card {(a, b). a \<in> A \<and> b \<in> A \<and> a \<noteq> b} + card ((\<lambda>a. (a, a)) ` A)"
    unfolding split [symmetric, THEN sym]
    using card_Un_disjoint [OF fin _ disj] assms split by simp
  then have "card A * card A = card {(a, b). a \<in> A \<and> b \<in> A \<and> a \<noteq> b} + card A"
    by (simp add: card_cartesian_product diag)
  then show ?thesis
    by (cases "card A") (simp_all add: algebra_simps)
qed


text \<open>
  C1. When every filename has a series, the pairwise-correlation loop completes, and
  then the keys of \<open>results\<close> are exactly the ordered pairs \<open>(a, b)\<close> of distinct
  filenames of the list: no key occurs twice, there is no self-pair, there are
  \<open>n * (n - 1)\<close> keys for \<open>n\<close> different filenames (the length of the list when it has
  no duplicate), and the value stored under \<open>(a, b)\<close> is \<open>corr\<close> of series \<open>a\<close> with
  series \<open>b\<close>.
\<close>

theorem pairwise_corr_results:
  assumes "set fns \<subseteq> dom (series st)"
  shows "\<exists>st'. pairwise_corr corr fns st = Inr st'
     \<and> set (map fst (results st')) = {(a, b). a \<in> set fns \<and> b \<in> set fns \<and> a \<noteq> b}
     \<and> distinct (map fst (results st'))
     \<and> length (results st') = card (set fns) * (card (set fns) - 1)
     \<and> (distinct fns \<longrightarrow> length (results st') = length fns * (length fns - 1))
     \<and> (\<forall>a\<in>set fns. \<forall>b\<in>set fns. a \<noteq> b \<longrightarrow>
          (\<exists>sa sb. series st a = Some sa \<and> series st b = Some sb
             \<and> map_of (results st') (a, b) = Some (corr sa sb)))"
proof -
  let ?st0 = "st\<lparr>results := []\<rparr>"
  have "set fns \<subseteq> dom (series ?st0)" using assms by simp
  from corr_outer_run [OF this this, of corr] obtain st' where
    run: "corr_outer corr fns fns ?st0 = Inr st'"
    and m0: "map_of (results st') =
         (\<lambda>k. if fst k \<in> set fns \<and> snd k \<in> set fns \<and> snd k \<noteq> fst k
              then Some (corr (the (series ?st0 (fst k))) (the (series ?st0 (snd k))))
              else map_of (results ?st0) k)"
    and d0: "distinct (map fst (results ?st0)) \<longrightarrow> distinct (map fst (results st'))"
    by blast
  from m0 have m: "map_of (results st') =
         (\<lambda>k. if fst k \<in> set fns \<and> snd k \<in> set fns \<and> snd k \<noteq> fst k
              then Some (corr (the (series st (fst k))) (the (series st (snd k))))
              else None)"
    by (simp add: fun_eq_iff)
  from d0 have d: "distinct (map fst (results st'))" by simp
  have keys: "set (map fst (results st')) = {(a, b). a \<in> set fns \<and> b \<in> set fns \<and> a \<noteq> b}"
    using dict_keys_dom [of "results st'"] unfolding m
    by (auto simp: dom_def split: if_splits)
  have "length (results st') = card (set (map fst (results st')))"
    using d distinct_card [of "map fst (results st')"] by simp
  then have len: "length (results st') = card (set fns) * (card (set fns) - 1)"
    unfolding keys by (simp add: card_distinct_pairs)
  have len': "distinct fns \<longrightarrow> length (results st') = length fns * (length fns - 1)"
    using len by (simp add: distinct_card)
  have vals: "\<exists>sa sb. series st a = Some sa \<and> series st b = Some sb
             \<and> map_of (results st') (a, b) = Some (corr sa sb)"
    if "a \<in> set fns" "b \<in> set fns" "a \<noteq> b" for a b
  proof -
    from that assms obtain sa sb where "series st a = Some sa" "series st b = Some sb"
      by (meson domD subsetD)
    with that show ?thesis unfolding m by auto
  qed
  from run keys d len len' vals show ?thesis
    unfolding pairwise_corr_def by blast
qed


theorem pairwise_corr_results_witness:
  "set [''a'', ''b''] \<subseteq> dom (series \<lparr>series = [''a'' \<mapsto> (1::nat), ''b'' \<mapsto> 2], results = []\<rparr>)
   \<and> (\<exists>st'. pairwise_corr (\<lambda>x y. Fin (real (x * y))) [''a'', ''b'']
          \<lparr>series = [''a'' \<mapsto> (1::nat), ''b'' \<mapsto> 2], results = []\<rparr> = Inr st'
        \<and> results st' = [((''a'', ''b''), Fin 2), ((''b'', ''a''), Fin 2)]
        \<and> length (results st') = 2 * (2 - 1))"
  using pairwise_corr_results [of "[''a'', ''b'']"
      "\<lparr>series = [''a'' \<mapsto> (1::nat), ''b'' \<mapsto> 2], results = []\<rparr>" "\<lambda>x y. Fin (real (x * y))"]
  by (simp add: pairwise_corr_def)

lemma load_loop_series:
  "load_loop read_hdf fns st = Inr st' \<Longrightarrow>
     results st' = results st
     \<and> (\<forall>fn. series st' fn =
          (if fn \<in> set fns then (case read_hdf fn of Inl e \<Rightarrow> None | Inr df \<Rightarrow> df ''close'')
           else series st fn))
     \<and> (\<forall>fn\<in>set fns. \<exists>df s. read_hdf fn = Inr df \<and> df ''close'' = Some s)"
proof (induction fns arbitrary: st)
  case Nil
  then show ?case by simp
next
  case (Cons f fns)
  from Cons.prems obtain df s where
    rd: "read_hdf f = Inr df" and col: "df ''close'' = Some s"
    and rest: "load_loop read_hdf fns (st\<lparr>series := (series st)(f \<mapsto> s)\<rparr>) = Inr st'"
    by (auto split: sum.splits option.splits)
  from Cons.IH [OF rest] rd col show ?case by auto
qed

lemma load_loop_completes:
  "\<forall>fn\<in>set fns. \<exists>df s. read_hdf fn = Inr df \<and> df ''close'' = Some s \<Longrightarrow>
     \<exists>st'. load_loop read_hdf fns st = Inr st'"
proof (induction fns arbitrary: st)
  case Nil
  then show ?case by simp
next
  case (Cons f fns)
  from Cons.prems obtain df s where "read_hdf f = Inr df" "df ''close'' = Some s" by auto
  moreover from Cons.prems have "\<forall>fn\<in>set fns. \<exists>df s. read_hdf fn = Inr df \<and> df ''close'' = Some s"
    by simp
  from Cons.IH [OF this] obtain st' where
    "load_loop read_hdf fns (st\<lparr>series := (series st)(f \<mapsto> s)\<rparr>) = Inr st'" by blast
  ultimately show ?case by simp
qed

text \<open>
  C7. When the loading loop completes, the keys of \<open>series\<close> are exactly the
  filenames, and \<open>series[fn]\<close> is the \<open>close\<close> column of what the reader returned
  for \<open>fn\<close>. The loop completes when every file is read and has the column.
\<close>

theorem load_series_result:
  "(load_series read_hdf fns st = Inr st' \<longrightarrow>
      dom (series st') = set fns
      \<and> (\<forall>fn\<in>set fns. \<exists>df s. read_hdf fn = Inr df \<and> df ''close'' = Some s
            \<and> series st' fn = Some s))
   \<and> ((\<forall>fn\<in>set fns. \<exists>df s. read_hdf fn = Inr df \<and> df ''close'' = Some s) \<longrightarrow>
        (\<exists>st''. load_series read_hdf fns st = Inr st''))"
proof -
  have part1: "dom (series st') = set fns
      \<and> (\<forall>fn\<in>set fns. \<exists>df s. read_hdf fn = Inr df \<and> df ''close'' = Some s
            \<and> series st' fn = Some s)"
    if run: "load_series read_hdf fns st = Inr st'"
  proof -
    from run have "load_loop read_hdf fns (st\<lparr>series := Map.empty\<rparr>) = Inr st'"
      by (simp add: load_series_def)
    from load_loop_series [OF this] have
      ser: "\<And>fn. series st' fn =
          (if fn \<in> set fns then (case read_hdf fn of Inl e \<Rightarrow> None | Inr df \<Rightarrow> df ''close'')
           else None)"
      and ok: "\<forall>fn\<in>set fns. \<exists>df s. read_hdf fn = Inr df \<and> df ''close'' = Some s"
      by simp_all
    have "dom (series st') = set fns"
      using ok by (auto simp: dom_def ser split: if_splits)
    moreover have "\<forall>fn\<in>set fns. \<exists>df s. read_hdf fn = Inr df \<and> df ''close'' = Some s
            \<and> series st' fn = Some s"
      using ok by (auto simp: ser)
    ultimately show ?thesis by blast
  qed
  have part2: "\<exists>st''. load_series read_hdf fns st = Inr st''"
    if "\<forall>fn\<in>set fns. \<exists>df s. read_hdf fn = Inr df \<and> df ''close'' = Some s"
    unfolding load_series_def using that by (rule load_loop_completes)
  from part1 part2 show ?thesis by blast
qed

theorem load_series_result_witness:
  "(\<lambda>fn. if fn = ''x.h5'' then Inr [''close'' \<mapsto> (7::nat)] else Inl (ReadError fn)) ''x.h5''
     = Inr [''close'' \<mapsto> 7]
   \<and> (\<exists>st'. load_series (\<lambda>fn. if fn = ''x.h5'' then Inr [''close'' \<mapsto> (7::nat)]
               else Inl (ReadError fn)) [''x.h5''] \<lparr>series = Map.empty, results = []\<rparr> = Inr st'
         \<and> dom (series st') = {''x.h5''} \<and> series st' ''x.h5'' = Some 7)"
  using load_series_result [of
      "\<lambda>fn. if fn = ''x.h5'' then Inr [''close'' \<mapsto> (7::nat)] else Inl (ReadError fn)"
      "[''x.h5'']" "\<lparr>series = Map.empty, results = []\<rparr>"
      "\<lparr>series = [''x.h5'' \<mapsto> 7], results = []\<rparr>"]
  by (simp add: load_series_def)

lemma pairwise_corr_series:
  "pairwise_corr corr fns st = Inr st' \<Longrightarrow> series st' = series st"
  unfolding pairwise_corr_def by (drule corr_outer_series) simp

text \<open>
  C6. The pairwise-correlation step leaves \<open>series\<close> as it found it; run after the
  loading loop, every \<open>series[fn]\<close> is still the \<open>close\<close> column read from \<open>fn\<close>.
  In the model \<open>corr\<close> is a function of the two series, as \<open>Series.corr\<close> is: it
  returns a float and writes to neither argument.
\<close>

theorem pairwise_corr_frame:
  assumes "pairwise_corr corr fns st = Inr st'"
  shows "series st' = series st
    \<and> (load_series read_hdf fns st0 = Inr st \<longrightarrow>
         (\<forall>fn\<in>set fns. \<exists>df s. read_hdf fn = Inr df \<and> df ''close'' = Some s
            \<and> series st' fn = Some s))"
proof -
  have ser: "series st' = series st"
    using assms by (rule pairwise_corr_series)
  have "\<forall>fn\<in>set fns. \<exists>df s. read_hdf fn = Inr df \<and> df ''close'' = Some s
            \<and> series st' fn = Some s"
    if run: "load_series read_hdf fns st0 = Inr st"
  proof -
    from run have "load_loop read_hdf fns (st0\<lparr>series := Map.empty\<rparr>) = Inr st"
      by (simp add: load_series_def)
    from load_loop_series [OF this] show ?thesis
      unfolding ser by auto
  qed
  with ser show ?thesis by blast
qed

theorem pairwise_corr_frame_witness:
  "\<exists>st st'.
     load_series (\<lambda>fn. if fn = ''a'' then Inr [''close'' \<mapsto> (1::nat)]
         else if fn = ''b'' then Inr [''close'' \<mapsto> 2] else Inl (ReadError fn))
       [''a'', ''b''] \<lparr>series = Map.empty, results = []\<rparr> = Inr st
     \<and> pairwise_corr (\<lambda>x y. Fin (real (x * y))) [''a'', ''b''] st = Inr st'
     \<and> series st' = series st \<and> series st' ''a'' = Some 1 \<and> series st' ''b'' = Some 2"
proof -
  let ?read = "\<lambda>fn. if fn = ''a'' then Inr [''close'' \<mapsto> (1::nat)]
         else if fn = ''b'' then Inr [''close'' \<mapsto> 2] else Inl (ReadError fn)"
  let ?st = "\<lparr>series = [''a'' \<mapsto> (1::nat), ''b'' \<mapsto> 2], results = []\<rparr>"
  let ?st' = "\<lparr>series = [''a'' \<mapsto> (1::nat), ''b'' \<mapsto> 2],
                results = [((''a'', ''b''), Fin 2), ((''b'', ''a''), Fin 2)]\<rparr>"
  have l: "load_series ?read [''a'', ''b''] \<lparr>series = Map.empty, results = []\<rparr> = Inr ?st"
    by (simp add: load_series_def)
  have p: "pairwise_corr (\<lambda>x y. Fin (real (x * y))) [''a'', ''b''] ?st = Inr ?st'"
    by (simp add: pairwise_corr_def)
  from pairwise_corr_frame [OF p, of ?read "\<lparr>series = Map.empty, results = []\<rparr>"] l
  have "series ?st' = series ?st \<and> series ?st' ''a'' = Some 1 \<and> series ?st' ''b'' = Some 2"
    by simp
  with l p show ?thesis by blast
qed

lemma sorted_glob_unique:
  assumes "distinct l1" "distinct l2" "set l1 = set l2"
  shows "sorted_glob l1 = sorted_glob l2"
  unfolding sorted_glob_def
  by (rule sorted_distinct_set_unique) (use assms in simp_all)

text \<open>
  C9. \<open>filenames\<close> is sorted, so it does not depend on the order in which \<open>glob\<close>
  lists the files: two listings of the same files give the same \<open>filenames\<close>, and with
  the same contents the same final state (the same \<open>results\<close>, in the same order) and
  the same best entry.
\<close>

theorem pipeline_deterministic:
  assumes "distinct l1" and "distinct l2" and "set l1 = set l2"
  shows "sorted (sorted_glob l1) \<and> sorted_glob l1 = sorted_glob l2
    \<and> pipeline l1 read_hdf corr = pipeline l2 read_hdf corr"
proof -
  have "sorted_glob l1 = sorted_glob l2"
    using assms by (rule sorted_glob_unique)
  then show ?thesis
    by (simp add: pipeline_def sorted_glob_def)
qed


theorem pipeline_deterministic_witness:
  "distinct [''b.h5'', ''a.h5''] \<and> distinct [''a.h5'', ''b.h5'']
   \<and> set [''b.h5'', ''a.h5''] = set [''a.h5'', ''b.h5'']
   \<and> sorted_glob [''b.h5'', ''a.h5''] = [''a.h5'', ''b.h5'']
   \<and> pipeline [''b.h5'', ''a.h5'']
        (\<lambda>fn. if fn = ''a.h5'' then Inr [''close'' \<mapsto> (1::nat)]
           else if fn = ''b.h5'' then Inr [''close'' \<mapsto> 2] else Inl (ReadError fn))
        (\<lambda>x y. Fin (real (x * y)))
      = pipeline [''a.h5'', ''b.h5'']
        (\<lambda>fn. if fn = ''a.h5'' then Inr [''close'' \<mapsto> (1::nat)]
           else if fn = ''b.h5'' then Inr [''close'' \<mapsto> 2] else Inl (ReadError fn))
        (\<lambda>x y. Fin (real (x * y)))
   \<and> pipeline [''a.h5'', ''b.h5'']
        (\<lambda>fn. if fn = ''a.h5'' then Inr [''close'' \<mapsto> (1::nat)]
           else if fn = ''b.h5'' then Inr [''close'' \<mapsto> 2] else Inl (ReadError fn))
        (\<lambda>x y. Fin (real (x * y)))
      = Inr (\<lparr>series = [''a.h5'' \<mapsto> 1, ''b.h5'' \<mapsto> 2],
               results = [((''a.h5'', ''b.h5''), Fin 2), ((''b.h5'', ''a.h5''), Fin 2)]\<rparr>,
             ((''a.h5'', ''b.h5''), Fin 2))"
proof -
  have d1: "distinct [''b.h5'', ''a.h5'']" and d2: "distinct [''a.h5'', ''b.h5'']"
    and s: "set [''b.h5'', ''a.h5''] = set [''a.h5'', ''b.h5'']"
    by auto
  have srt: "sorted_glob [''a.h5'', ''b.h5''] = [''a.h5'', ''b.h5'']"
    by (simp add: sorted_glob_def less_eq_char_def)
  have run: "pipeline [''a.h5'', ''b.h5'']
        (\<lambda>fn. if fn = ''a.h5'' then Inr [''close'' \<mapsto> (1::nat)]
           else if fn = ''b.h5'' then Inr [''close'' \<mapsto> 2] else Inl (ReadError fn))
        (\<lambda>x y. Fin (real (x * y)))
      = Inr (\<lparr>series = [''a.h5'' \<mapsto> 1, ''b.h5'' \<mapsto> 2],
               results = [((''a.h5'', ''b.h5''), Fin 2), ((''b.h5'', ''a.h5''), Fin 2)]\<rparr>,
             ((''a.h5'', ''b.h5''), Fin 2))"
    by (simp add: pipeline_def srt load_series_def pairwise_corr_def best_pair_def py_max_def)
  from pipeline_deterministic [OF d1 d2 s, of
      "\<lambda>fn. if fn = ''a.h5'' then Inr [''close'' \<mapsto> (1::nat)]
           else if fn = ''b.h5'' then Inr [''close'' \<mapsto> 2] else Inl (ReadError fn)"
      "\<lambda>x y. Fin (real (x * y))"] srt run d1 d2 s
  show ?thesis
    by simp
qed

subsection \<open>Futures\<close>

lemma finish_settled: "finish (settled r) = settled r"
  by (cases r) simp_all

lemma carries_submit: "carries (fst (submit ex call)) call (snd (submit ex call))"
  by (simp add: carries_def submit_def)

lemma carries_after_submit: "carries f call ex \<Longrightarrow> carries f call (snd (submit ex call'))"
  by (auto simp: carries_def submit_def nth_append)

lemma carries_worker_completes:
  assumes "carries f call ex"
  shows "carries f call (worker_completes i ex)"
proof (cases "i = f")
  case True
  from assms have "finish (future_states ex ! f) = settled (call ())"
    by (auto simp: carries_def finish_settled)
  with assms True show ?thesis
    by (simp add: carries_def worker_completes_def)
next
  case False
  with assms show ?thesis
    by (simp add: carries_def worker_completes_def)
qed

lemma carries_worker_step: "carries f call ex \<Longrightarrow> carries f call (worker_step ex)"
  by (simp add: worker_step_def carries_worker_completes split: option.splits)

lemma carries_await: "carries f call ex \<Longrightarrow> carries f call (await ex g)"
proof (induction ex g rule: await.induct)
  case (1 ex g)
  show ?case
  proof (cases "g < length (future_states ex) \<and> is_pending (future_states ex ! g)")
    case True
    then have "await ex g = await (worker_step ex) g"
      by (simp add: await_pending)
    moreover have "carries f call (await (worker_step ex) g)"
      using True "1.prems" by (intro "1.IH" carries_worker_step) simp_all
    ultimately show ?thesis by simp
  next
    case False
    then have "await ex g = ex"
      by (rule await_settled)
    with "1.prems" show ?thesis by simp
  qed
qed

lemma carries_act: "carries f call ex \<Longrightarrow> carries f call (act a ex)"
  by (cases a) (simp_all add: carries_after_submit carries_worker_completes carries_await)

lemma carries_fold_act: "carries f call ex \<Longrightarrow> carries f call (fold act acts ex)"
  by (induction acts arbitrary: ex) (simp_all add: carries_act)

lemma await_done:
  "g < length (future_states (await ex g)) \<Longrightarrow> \<not> is_pending (future_states (await ex g) ! g)"
proof (induction ex g rule: await.induct)
  case (1 ex g)
  show ?case
  proof (cases "g < length (future_states ex) \<and> is_pending (future_states ex ! g)")
    case True
    then have "await ex g = await (worker_step ex) g"
      by (simp add: await_pending)
    with "1.IH" [OF True] "1.prems" show ?thesis by simp
  next
    case False
    then have "await ex g = ex"
      by (rule await_settled)
    with False "1.prems" show ?thesis by simp
  qed
qed

lemma result_carries:
  assumes "carries f call ex"
  shows "result ex f = Some (await ex f, call ())"
proof -
  from assms have h: "carries f call (await ex f)" by (rule carries_await)
  then have len: "f < length (future_states (await ex f))" by (simp add: carries_def)
  then have "\<not> is_pending (future_states (await ex f) ! f)" by (rule await_done)
  with h have st: "future_states (await ex f) ! f = settled (call ())"
    by (auto simp: carries_def)
  show ?thesis
    by (cases "call ()") (simp_all add: result_def Let_def len st)
qed

text \<open>
  C5. A future that \<open>submit\<close> returned for a call yields, whatever the executor does
  in between (further submissions, workers finishing calls in any order, waits for
  other futures), what the call itself does: when the call raises, \<open>result\<close> raises
  the same exception; when it returns a value, \<open>result\<close> returns that value.
\<close>

theorem future_result:
  assumes "submit ex call = (f, ex1)"
  shows "(\<forall>e. call () = Inl e \<longrightarrow> (\<exists>ex'. result (fold act acts ex1) f = Some (ex', Inl e)))
       \<and> (\<forall>v. call () = Inr v \<longrightarrow> (\<exists>ex'. result (fold act acts ex1) f = Some (ex', Inr v)))"
proof -
  from assms carries_submit [of ex call] have "carries f call ex1" by simp
  then have "carries f call (fold act acts ex1)" by (rule carries_fold_act)
  then have "result (fold act acts ex1) f = Some (await (fold act acts ex1) f, call ())"
    by (rule result_carries)
  then show ?thesis by auto
qed

theorem future_result_witness:
  "(\<exists>e'. cell10 = Some (e', Inr 3))
   \<and> (\<exists>e1 e'. submit (ThreadPoolExecutor 4) (\<lambda>_. slowadd 1 2 (- 1)) = (0, e1)
         \<and> result e1 0 = Some (e', Inl ValueError))"
proof -
  let ?e = "ThreadPoolExecutor 4 :: int executor"
  have s1: "submit ?e (\<lambda>_. slowadd 1 2 1) = (0, snd (submit ?e (\<lambda>_. slowadd 1 2 1)))"
    and s2: "submit ?e (\<lambda>_. slowadd 1 2 (- 1)) = (0, snd (submit ?e (\<lambda>_. slowadd 1 2 (- 1))))"
    by (simp_all add: submit_def ThreadPoolExecutor_def)
  from future_result [OF s1, of "[]"]
  have "\<exists>e'. result (snd (submit ?e (\<lambda>_. slowadd 1 2 1))) 0 = Some (e', Inr 3)"
    by (simp add: slowadd_def)
  moreover have "cell10 = result (snd (submit ?e (\<lambda>_. slowadd 1 2 1))) 0"
    by (simp add: cell10_def cell9_def submit_def ThreadPoolExecutor_def)
  ultimately have "\<exists>e'. cell10 = Some (e', Inr 3)"
    by simp
  moreover from future_result [OF s2, of "[]"]
  have "\<exists>e'. result (snd (submit ?e (\<lambda>_. slowadd 1 2 (- 1)))) 0 = Some (e', Inl ValueError)"
    by (simp add: slowadd_def)
  ultimately show ?thesis using s2 by blast
qed









lemma submit_each_fold:
  "snd (submit_each task xs ex) = fold act (map (\<lambda>x. Submits (task x)) xs) ex"
proof (induction xs arbitrary: ex)
  case Nil
  then show ?case by simp
next
  case (Cons x xs)
  obtain f exa where sub: "submit ex (task x) = (f, exa)"
    by (cases "submit ex (task x)")
  obtain fs ex2 where rest: "submit_each task xs exa = (fs, ex2)"
    by (cases "submit_each task xs exa")
  from Cons.IH [of exa] rest have "ex2 = fold act (map (\<lambda>x. Submits (task x)) xs) exa"
    by simp
  with sub rest show ?case by simp
qed

lemma result_each_submit_each:
  "submit_each task xs ex = (fs, ex1) \<Longrightarrow>
     \<exists>ex'. result_each fs (fold act acts ex1) = Some (ex', comprehension (\<lambda>x. task x ()) xs)"
proof (induction xs arbitrary: ex fs ex1 acts)
  case Nil
  then show ?case by simp
next
  case (Cons x xs)
  obtain f exa where sub: "submit ex (task x) = (f, exa)"
    by (cases "submit ex (task x)")
  obtain fs' ex2 where rest0: "submit_each task xs exa = (fs', ex2)"
    by (cases "submit_each task xs exa")
  from Cons.prems sub rest0 have fs: "fs = f # fs'" and "ex2 = ex1"
    by simp_all
  with rest0 have rest: "submit_each task xs exa = (fs', ex1)"
    by simp
  let ?now = "fold act acts ex1"
  from sub carries_submit [of ex "task x"] have "carries f (task x) exa" by simp
  then have "carries f (task x) (fold act (map (\<lambda>x. Submits (task x)) xs) exa)"
    by (rule carries_fold_act)
  with rest submit_each_fold [of task xs exa] have "carries f (task x) ex1" by simp
  then have "carries f (task x) ?now" by (rule carries_fold_act)
  then have res: "result ?now f = Some (await ?now f, task x ())"
    by (rule result_carries)
  from Cons.IH [OF rest, of "acts @ [Waits f]"] obtain ex' where
    tl: "result_each fs' (await ?now f) = Some (ex', comprehension (\<lambda>x. task x ()) xs)"
    by auto
  show ?case
  proof (cases "task x ()")
    case (Inl e)
    with res fs show ?thesis by simp
  next
    case (Inr v)
    with res tl fs show ?thesis
      by (cases "comprehension (\<lambda>x. task x ()) xs") simp_all
  qed
qed

lemma py_range_10: "py_range 10 = [0, 1, 2, 3, 4, 5, 6, 7, 8, 9]"
  by (simp add: py_range_def upt_rec)

text \<open>
  C4. Reading the futures of submitted calls gives the values of the calls
  (\<open>result_each_submit_each\<close>). In the demo the two cells make different calls:
  cell 12 calls \<open>slowadd(i, i)\<close>, cell 13 submits \<open>slowadd(1, 1)\<close> ten times, so the
  sequential list is \<open>[0, 2, ..., 18]\<close> and the parallel list is ten times 2.
\<close>

theorem slowadd_demo_lists:
  "cell12 = Inr [0, 2, 4, 6, 8, 10, 12, 14, 16, 18]
   \<and> (\<exists>e'. cell13 e = Some (e', Inr [2, 2, 2, 2, 2, 2, 2, 2, 2, 2]))"
proof -
  have seq: "cell12 = Inr [0, 2, 4, 6, 8, 10, 12, 14, 16, 18]"
    by (simp add: cell12_def py_range_10 slowadd_def)
  obtain futs e1 where sub: "submit_each (\<lambda>i _. slowadd 1 1 1) (py_range 10) e = (futs, e1)"
    by (cases "submit_each (\<lambda>i _. slowadd 1 1 1) (py_range 10) e") auto
  from result_each_submit_each [OF sub, of "[]"] obtain e' where
    "result_each futs e1 = Some (e', comprehension (\<lambda>i. slowadd 1 1 1) (py_range 10))"
    by auto
  then have "cell13 e = Some (e', Inr [2, 2, 2, 2, 2, 2, 2, 2, 2, 2])"
    using sub by (simp add: cell13_def py_range_10 slowadd_def)
  with seq show ?thesis by blast
qed

subsection \<open>The sequential exercise\<close>

lemma exercise_inner_row:
  "exercise_inner i js res =
     Inr (res @ concat (map (\<lambda>j. if i = j then [] else [if i < j then i + j else i - j]) js))"
  by (induction js arbitrary: res) (auto simp add: slowadd_def slowsub_def)

lemma exercise_outer_rows:
  "exercise_outer is js res =
     Inr (res @ concat (map (\<lambda>i. concat (map (\<lambda>j. if i = j then [] else
       [if i < j then i + j else i - j]) js)) is))"
  by (induction "is" arbitrary: res) (simp_all add: exercise_inner_row)

text \<open>
  C10. The sequential exercise returns a list of exactly 20 values: the pairs \<open>(i, j)\<close>
  of \<open>range(5) x range(5)\<close> in row-major order with the diagonal skipped, \<open>i + j\<close> when
  \<open>i < j\<close> and \<open>i - j\<close> when \<open>i > j\<close>.
\<close>

theorem sequential_exercise_values:
  "sequential_exercise = Inr exercise_described
   \<and> length exercise_described = 20
   \<and> exercise_described = [1, 2, 3, 4, 1, 3, 4, 5, 2, 1, 5, 6, 3, 2, 1, 7, 4, 3, 2, 1]"
proof -
  have run: "sequential_exercise = Inr exercise_described"
    by (simp add: sequential_exercise_def exercise_described_def exercise_outer_rows)
  have r5: "py_range 5 = [0, 1, 2, 3, 4]"
    by (simp add: py_range_def upt_rec)
  have vals: "exercise_described = [1, 2, 3, 4, 1, 3, 4, 5, 2, 1, 5, 6, 3, 2, 1, 7, 4, 3, 2, 1]"
    by (simp add: exercise_described_def r5)
  have len: "length exercise_described = 20"
    unfolding vals by simp
  from run len vals show ?thesis by blast
qed

end
